theory Spec2Isabelle
  imports Main "HOL-Library.Monad_Syntax"
begin

section \<open>Python values the program relies on\<close>

text \<open>
  The program is \<^verbatim>\<open>analyse_avr_call_tree.py\<close>. It is read as a Python 3 program over
  ASCII text (an AVR disassembly listing). Every exception the interpreter can raise
  in the modelled functions is a value of \<open>error\<close>; a function that can raise returns
  \<open>error + 'a\<close>, with \<open>Inl\<close> for the exception.
\<close>

datatype error = TypeError | AttributeError | IndexError | ValueError

text \<open>
  ASCII whitespace as \<^verbatim>\<open>str.isspace\<close>, \<^verbatim>\<open>str.strip\<close>, \<^verbatim>\<open>str.split\<close> and the
  regular expression class \<^verbatim>\<open>\s\<close> see it: tab, line feed, vertical tab, form feed,
  carriage return, the four separators 0x1C to 0x1F, and the space.
\<close>

definition is_space :: "char \<Rightarrow> bool" where
  "is_space c = (c \<in> set [CHR 0x09, CHR 0x0A, CHR 0x0B, CHR 0x0C, CHR 0x0D,
                           CHR 0x1C, CHR 0x1D, CHR 0x1E, CHR 0x1F, CHR 0x20])"

text \<open>The class \<^verbatim>\<open>\w\<close> on ASCII text: letters, digits and the underscore.\<close>

definition is_word :: "char \<Rightarrow> bool" where
  "is_word c = (c \<in> set (''abcdefghijklmnopqrstuvwxyz'' @ ''ABCDEFGHIJKLMNOPQRSTUVWXYZ''
                            @ ''0123456789'' @ ''_''))"

text \<open>The class \<^verbatim>\<open>[0-9a-f]\<close> of the patterns: lower case only.\<close>

definition is_hex :: "char \<Rightarrow> bool" where
  "is_hex c = (c \<in> set ''0123456789abcdef'')"

text \<open>\<^verbatim>\<open>s.strip()\<close>: whitespace removed at both ends.\<close>

definition py_strip :: "string \<Rightarrow> string" where
  "py_strip s = rev (dropWhile is_space (rev (dropWhile is_space s)))"

text \<open>
  \<^verbatim>\<open>s.split()\<close>: the maximal runs of non-whitespace characters, in order. The first
  argument of the loop is the word being read, reversed.
\<close>

fun py_split_from :: "string \<Rightarrow> string \<Rightarrow> string list" where
  "py_split_from w [] = (if w = [] then [] else [rev w])"
| "py_split_from w (c # cs) =
     (if is_space c
      then (if w = [] then py_split_from [] cs else rev w # py_split_from [] cs)
      else py_split_from (c # w) cs)"

definition py_split :: "string \<Rightarrow> string list" where
  "py_split s = py_split_from [] s"

text \<open>
  \<^verbatim>\<open>int(s, 16)\<close> as CPython 3 (3.6 or later) reads it: surrounding whitespace, an optional
  sign, an optional prefix \<^verbatim>\<open>0x\<close> or \<^verbatim>\<open>0X\<close> (one underscore may follow it), then at
  least one hexadecimal digit of either case, with single underscores allowed
  between digits only. \<open>None\<close> stands for \<^verbatim>\<open>ValueError\<close>.
\<close>

definition hex_digit :: "char \<Rightarrow> nat option" where
  "hex_digit c = map_of
     [(CHR ''0'', 0), (CHR ''1'', 1), (CHR ''2'', 2), (CHR ''3'', 3), (CHR ''4'', 4),
      (CHR ''5'', 5), (CHR ''6'', 6), (CHR ''7'', 7), (CHR ''8'', 8), (CHR ''9'', 9),
      (CHR ''a'', 10), (CHR ''b'', 11), (CHR ''c'', 12), (CHR ''d'', 13), (CHR ''e'', 14),
      (CHR ''f'', 15), (CHR ''A'', 10), (CHR ''B'', 11), (CHR ''C'', 12), (CHR ''D'', 13),
      (CHR ''E'', 14), (CHR ''F'', 15)] c"

text \<open>
  The digit scan: \<open>prev\<close> is the character read last, \<open>acc\<close> the value so far. Two
  underscores in a row and an underscore at the end are refused, as is every
  character that is neither a digit nor an underscore.
\<close>

fun hex_digits :: "string \<Rightarrow> char \<Rightarrow> nat \<Rightarrow> nat option" where
  "hex_digits [] prev acc = (if prev = CHR ''_'' then None else Some acc)"
| "hex_digits (c # cs) prev acc =
     (if c = CHR ''_''
      then (if prev = CHR ''_'' then None else hex_digits cs c acc)
      else (case hex_digit c of
              None \<Rightarrow> None
            | Some d \<Rightarrow> hex_digits cs c (16 * acc + d)))"

definition py_sign :: "string \<Rightarrow> bool \<times> string" where
  "py_sign t = (case t of
                  [] \<Rightarrow> (False, t)
                | c # r \<Rightarrow> if c = CHR ''+'' then (False, r)
                           else if c = CHR ''-'' then (True, r)
                           else (False, t))"

definition py_prefix16 :: "string \<Rightarrow> string" where
  "py_prefix16 u = (case u of
                      a # b # r \<Rightarrow>
                        if a = CHR ''0'' \<and> (b = CHR ''x'' \<or> b = CHR ''X'')
                        then (case r of
                                [] \<Rightarrow> r
                              | c # r' \<Rightarrow> if c = CHR ''_'' then r' else r)
                        else u
                    | _ \<Rightarrow> u)"

definition py_int16 :: "string \<Rightarrow> int option" where
  "py_int16 s =
     (case py_sign (py_strip s) of
        (neg, u) \<Rightarrow>
          (case py_prefix16 u of
             [] \<Rightarrow> None
           | c # r \<Rightarrow>
               if c = CHR ''_'' then None
               else map_option (\<lambda>n. if neg then - int n else int n)
                      (hex_digits (c # r) CHR ''0'' 0)))"

section \<open>The three patterns\<close>

text \<open>
  Each pattern is applied with \<^verbatim>\<open>match\<close>: anchored at the start of the string, free at
  its end. In all three patterns every greedy repetition is followed by an item that
  no character of the repeated class can start, so a match, when there is one, takes
  each run whole; the only choice point is the optional second byte pair of
  \<^verbatim>\<open>instr_line_pat\<close>, tried first and given up when the rest cannot follow it.

  The building blocks return the rest of the string after them.
\<close>

definition run1 :: "(char \<Rightarrow> bool) \<Rightarrow> string \<Rightarrow> (string \<times> string) option" where
  \<comment> \<open>a class repeated with \<^verbatim>\<open>+\<close>: the whole run, which must not be empty\<close>
  "run1 P s = (if takeWhile P s = [] then None else Some (takeWhile P s, dropWhile P s))"

definition spaces1 :: "string \<Rightarrow> string option" where
  \<comment> \<open>\<^verbatim>\<open>\s+\<close>\<close>
  "spaces1 s = map_option snd (run1 is_space s)"

definition lit :: "char \<Rightarrow> string \<Rightarrow> string option" where
  \<comment> \<open>one literal character\<close>
  "lit c s = (case s of [] \<Rightarrow> None | d # t \<Rightarrow> if d = c then Some t else None)"

text \<open>
  \<^verbatim>\<open>first_line_pat = (?P<addr>[0-9a-f]+)\s+<(?P<name>\w+)>:\<close>
  The result holds the groups \<open>addr\<close> and \<open>name\<close>.
\<close>

definition first_line_pat :: "string \<Rightarrow> (string \<times> string) option" where
  "first_line_pat s = do {
     (a, s1) \<leftarrow> run1 is_hex s;
     s2 \<leftarrow> spaces1 s1;
     s3 \<leftarrow> lit CHR ''<'' s2;
     (n, s4) \<leftarrow> run1 is_word s3;
     s5 \<leftarrow> lit CHR ''>'' s4;
     _ \<leftarrow> lit CHR '':'' s5;
     Some (a, n)
   }"

text \<open>
  \<^verbatim>\<open>instr_line_pat\<close>, written in verbose mode (blanks in the pattern mean nothing):
  \<^verbatim>\<open>(?P<addr>[0-9a-f]+):\s+(?P<byts1>[0-9a-f]{2}\s[0-9a-f]{2})\s+\<close>
  \<^verbatim>\<open>((?P<byts2>[0-9a-f]{2}\s[0-9a-f]{2})\s+)?(?P<opc>\w+)(\s+(?P<rest>.*))?\<close>
  The result holds the groups the program reads: \<open>opc\<close>, and \<open>rest\<close>, which is
  \<open>None\<close> when the last optional group did not take part in the match. The dot
  matches every character but the line feed.
\<close>

definition byts :: "string \<Rightarrow> string option" where
  \<comment> \<open>\<^verbatim>\<open>[0-9a-f]{2}\s[0-9a-f]{2}\<close>\<close>
  "byts s = (case s of
               a # b # c # d # e # t \<Rightarrow>
                 if is_hex a \<and> is_hex b \<and> is_space c \<and> is_hex d \<and> is_hex e
                 then Some t else None
             | _ \<Rightarrow> None)"

definition opc_rest :: "string \<Rightarrow> (string \<times> string option) option" where
  \<comment> \<open>\<^verbatim>\<open>(?P<opc>\w+)(\s+(?P<rest>.*))?\<close>\<close>
  "opc_rest s = do {
     (opc, t) \<leftarrow> run1 is_word s;
     Some (opc, map_option (takeWhile (\<lambda>c. c \<noteq> CHR 0x0A)) (spaces1 t))
   }"

definition instr_line_pat :: "string \<Rightarrow> (string \<times> string option) option" where
  "instr_line_pat s = do {
     (a, s1) \<leftarrow> run1 is_hex s;
     s2 \<leftarrow> lit CHR '':'' s1;
     s3 \<leftarrow> spaces1 s2;
     s4 \<leftarrow> byts s3;
     s5 \<leftarrow> spaces1 s4;
     (case do { s6 \<leftarrow> byts s5; s7 \<leftarrow> spaces1 s6; opc_rest s7 } of
        Some r \<Rightarrow> Some r
      | None \<Rightarrow> opc_rest s5)
   }"

text \<open>
  \<^verbatim>\<open>rest_pat = (?P<opnd>\S+)\s+;\s+(?P<addr>[x0-9a-f]+)\s+<(?P<name>\w+)>\<close>
  (verbose mode again). The result is the group \<open>name\<close>.
\<close>

definition rest_pat :: "string \<Rightarrow> string option" where
  "rest_pat s = do {
     (opnd, s1) \<leftarrow> run1 (\<lambda>c. \<not> is_space c) s;
     s2 \<leftarrow> spaces1 s1;
     s3 \<leftarrow> lit CHR '';'' s2;
     s4 \<leftarrow> spaces1 s3;
     (a, s5) \<leftarrow> run1 (\<lambda>c. c = CHR ''x'' \<or> is_hex c) s4;
     s6 \<leftarrow> spaces1 s5;
     s7 \<leftarrow> lit CHR ''<'' s6;
     (n, s8) \<leftarrow> run1 is_word s7;
     _ \<leftarrow> lit CHR ''>'' s8;
     Some n
   }"

section \<open>The class \<open>Function\<close>\<close>

text \<open>
  A \<open>Function\<close> object holds a name, an address, the body lines, the set of callee
  names and the stack size. The set \<^verbatim>\<open>_callees\<close> is held as a list without
  duplicates (\<open>List.insert\<close> adds an element that is not there yet); the field
  \<open>callees\<close> is also what the property \<^verbatim>\<open>callees\<close> returns,
  \<^verbatim>\<open>[c for c in self._callees]\<close>: the elements of the set in the order in which
  Python enumerates it. No theorem below depends on that order unless it says so.
\<close>

record Function =
  name :: string
  addr :: int
  body :: "string list"
  callees :: "string list"
  stacksize :: int

text \<open>
  \<^verbatim>\<open>analyse_call(self, line, is_last=False)\<close>, with the callee set passed in and
  returned. \<^verbatim>\<open>rest_pat.match(rest)\<close> raises \<^verbatim>\<open>TypeError\<close> when \<open>rest\<close> is
  \<^verbatim>\<open>None\<close>. The branches for \<^verbatim>\<open>icall\<close> and for the other opcodes do nothing.
\<close>

definition analyse_call :: "string list \<Rightarrow> string \<Rightarrow> bool \<Rightarrow> error + string list" where
  "analyse_call cs line is_last =
     (case instr_line_pat (py_strip line) of
        None \<Rightarrow> Inr cs
      | Some (opc, rest) \<Rightarrow>
          if opc \<in> {''call'', ''rcall''} \<or> is_last \<and> opc \<in> {''jmp'', ''rjmp''}
          then (case rest of
                  None \<Rightarrow> Inl TypeError
                | Some r \<Rightarrow>
                    (case rest_pat r of
                       None \<Rightarrow> Inr cs
                     | Some callee \<Rightarrow> Inr (List.insert callee cs)))
          else if opc \<in> {''icall''} then Inr cs
          else Inr cs)"

text \<open>The loop \<^verbatim>\<open>for b in self._body[:-1]: self.analyse_call(b)\<close>.\<close>

fun analyse_calls :: "string list \<Rightarrow> string list \<Rightarrow> error + string list" where
  "analyse_calls cs [] = Inr cs"
| "analyse_calls cs (b # bs) =
     (case analyse_call cs b False of
        Inl e \<Rightarrow> Inl e
      | Inr cs' \<Rightarrow> analyse_calls cs' bs)"

text \<open>
  The loop of \<^verbatim>\<open>count_pushes\<close> over the body, with its three variables.
  \<^verbatim>\<open>continue\<close> is the recursive call, \<^verbatim>\<open>break\<close> returns the count. A line that
  is no instruction changes nothing. \<^verbatim>\<open>rest.split()\<close> raises \<^verbatim>\<open>AttributeError\<close>
  when \<open>rest\<close> is \<^verbatim>\<open>None\<close>, \<^verbatim>\<open>v[0]\<close> and \<^verbatim>\<open>v[1]\<close> raise \<^verbatim>\<open>IndexError\<close>
  out of range, \<^verbatim>\<open>int(v[1], 16)\<close> raises \<^verbatim>\<open>ValueError\<close>.
\<close>

fun count_pushes_loop :: "string list \<Rightarrow> int \<Rightarrow> bool \<Rightarrow> nat \<Rightarrow> error + int" where
  "count_pushes_loop [] count done_pushes nr_in = Inr count"
| "count_pushes_loop (b # bs) count done_pushes nr_in =
     (case instr_line_pat (py_strip b) of
        None \<Rightarrow> count_pushes_loop bs count done_pushes nr_in
      | Some (opc, rest) \<Rightarrow>
          if \<not> done_pushes \<and> opc = ''push''
          then count_pushes_loop bs (count + 1) done_pushes nr_in
          else if nr_in < 2 \<and> opc = ''in''
          then count_pushes_loop bs count True (nr_in + 1)
          else if nr_in = 2 \<and> opc \<in> {''sbiw'', ''subi''}
          then (case rest of
                  None \<Rightarrow> Inl AttributeError
                | Some r \<Rightarrow>
                    (case py_split r of
                       [] \<Rightarrow> Inl IndexError
                     | v0 # vs \<Rightarrow>
                         if v0 = ''r28,''
                         then (case vs of
                                 [] \<Rightarrow> Inl IndexError
                               | v1 # _ \<Rightarrow>
                                   (case py_int16 v1 of
                                      None \<Rightarrow> Inl ValueError
                                    | Some num \<Rightarrow> Inr (count + num)))
                         else count_pushes_loop bs count True nr_in))
          else count_pushes_loop bs count True nr_in)"

definition count_pushes :: "string list \<Rightarrow> error + int" where
  "count_pushes bd = count_pushes_loop bd 0 False 0"

text \<open>
  \<^verbatim>\<open>Function.__init__(self, lines)\<close>. \<^verbatim>\<open>lines[0]\<close> and \<^verbatim>\<open>self._body[-1]\<close> raise
  \<^verbatim>\<open>IndexError\<close> on an empty list.
\<close>

definition header :: "string list \<Rightarrow> error + string \<times> int \<times> string list" where
  "header lines =
     (case lines of
        [] \<Rightarrow> Inl IndexError
      | l0 # ls \<Rightarrow>
          (case first_line_pat l0 of
             Some (a, n) \<Rightarrow>
               (case py_int16 a of
                  None \<Rightarrow> Inl ValueError
                | Some v \<Rightarrow> Inr (n, v, ls))
           | None \<Rightarrow> Inr (''unknown'', 0, lines)))"

definition Function_init :: "string list \<Rightarrow> error + Function" where
  "Function_init lines =
     (case header lines of
        Inl e \<Rightarrow> Inl e
      | Inr (nm, ad, bd) \<Rightarrow>
          (case analyse_calls [] (butlast bd) of
             Inl e \<Rightarrow> Inl e
           | Inr cs \<Rightarrow>
               if bd = [] then Inl IndexError
               else (case analyse_call cs (last bd) True of
                       Inl e \<Rightarrow> Inl e
                     | Inr cs' \<Rightarrow>
                         (case count_pushes bd of
                            Inl e \<Rightarrow> Inl e
                          | Inr n \<Rightarrow>
                              Inr \<lparr>name = nm, addr = ad, body = bd,
                                   callees = cs', stacksize = n\<rparr>))))"

section \<open>The call-tree walker\<close>

text \<open>
  \<^verbatim>\<open>all_funcs\<close>, the dictionary from names to \<open>Function\<close> objects, is a parameter
  of the walker. The walker prints; each constructor of \<open>line\<close> is one call of
  \<^verbatim>\<open>print\<close> with the values it formats (the layout of the text is left out):
  \<open>Node\<close> holds the cumulative stack size, the node's own stack size, the level
  (which gives the indentation) and the name.
\<close>

type_synonym index = "string \<rightharpoonup> Function"

datatype line =
    Node int int int string
  | TooDeep int
  | Recursive int string
  | Deepest int

text \<open>
  \<^verbatim>\<open>print_call_tree(args, funcname, stacksize, level)\<close> returns the lines printed and
  what the call returns or raises. The parameter \<open>ss\<close> is \<^verbatim>\<open>stacksize\<close> on entry.
  The bare \<^verbatim>\<open>return\<close> under \<^verbatim>\<open>level > 20\<close> returns \<^verbatim>\<open>None\<close>. \<open>walk_callees\<close>
  is the loop \<^verbatim>\<open>for c in func.callees\<close> with its variable \<^verbatim>\<open>max_ss\<close>; in Python 3
  \<^verbatim>\<open>max(this_ss, max_ss)\<close> raises \<^verbatim>\<open>TypeError\<close> when \<^verbatim>\<open>this_ss\<close> is \<^verbatim>\<open>None\<close>. An
  exception ends the walk; what was printed before it stays printed.
\<close>

function print_call_tree :: "index \<Rightarrow> string \<Rightarrow> int \<Rightarrow> int \<Rightarrow> line list \<times> (error + int option)"
  and walk_callees :: "index \<Rightarrow> string \<Rightarrow> int \<Rightarrow> int \<Rightarrow> string list \<Rightarrow> int \<Rightarrow> line list \<times> (error + int)"
where
  "print_call_tree all_funcs funcname ss level =
     (let func = all_funcs funcname;
          my_stacksize = (case func of None \<Rightarrow> 0 | Some f \<Rightarrow> stacksize f);
          ss' = ss + my_stacksize;
          out = [Node ss' my_stacksize level funcname]
      in if level > 20 then (out @ [TooDeep level], Inr None)
         else (case func of
                 None \<Rightarrow> (out, Inr (Some ss'))
               | Some f \<Rightarrow>
                   (case walk_callees all_funcs funcname ss' level (callees f) ss' of
                      (out', Inl e) \<Rightarrow> (out @ out', Inl e)
                    | (out', Inr max_ss) \<Rightarrow> (out @ out', Inr (Some max_ss)))))"
| "walk_callees all_funcs funcname ss level [] max_ss = ([], Inr max_ss)"
| "walk_callees all_funcs funcname ss level (c # cs) max_ss =
     (if c = funcname
      then (case walk_callees all_funcs funcname ss level cs max_ss of
              (out, r) \<Rightarrow> (Recursive level funcname # out, r))
      else (case print_call_tree all_funcs c ss (level + 1) of
              (out, Inl e) \<Rightarrow> (out, Inl e)
            | (out, Inr None) \<Rightarrow> (out, Inl TypeError)
            | (out, Inr (Some this_ss)) \<Rightarrow>
                (case walk_callees all_funcs funcname ss level cs (max this_ss max_ss) of
                   (out', r) \<Rightarrow> (out @ out', r))))"
  by pat_completeness auto
termination
  by (relation "inv_image (less_than <*lex*> less_than)
        (\<lambda>x. case x of
           Inl (a, n, s, l) \<Rightarrow> (if l > 20 then 0 else 2 * nat (21 - l) + 2, 0)
         | Inr (a, n, s, l, cs, m) \<Rightarrow> (2 * nat (21 - l) + 1, length cs))")
     auto

declare print_call_tree.simps [simp del]

text \<open>
  \<^verbatim>\<open>main\<close> after the index is built: the message on the error stream when the name
  is not in the index, then the walk from level 0 with stack size 0, then the
  summary line. The result is the error stream, the output stream and the exception
  that ended the program, if any (\<^verbatim>\<open>%d\<close> of \<^verbatim>\<open>None\<close> raises \<^verbatim>\<open>TypeError\<close>).
\<close>

datatype message = NotFound string

definition main :: "index \<Rightarrow> string \<Rightarrow> message list \<times> line list \<times> error option" where
  "main all_funcs func =
     (let err = (if all_funcs func = None then [NotFound func] else [])
      in case print_call_tree all_funcs func 0 0 of
           (out, Inl e) \<Rightarrow> (err, out, Some e)
         | (out, Inr None) \<Rightarrow> (err, out, Some TypeError)
         | (out, Inr (Some ss)) \<Rightarrow> (err, out @ [Deepest ss], None))"

section \<open>Building the index\<close>

text \<open>
  \<^verbatim>\<open>get_funcs\<close> cuts the text of the listing into blocks with \<^verbatim>\<open>symbol_pat\<close> and
  each block into lines, and makes a \<open>Function\<close> of each; the model starts from the
  blocks, each a list of lines. \<^verbatim>\<open>process_lss\<close> stores every function under its
  name, a later one replacing an earlier one of the same name. An exception in a
  constructor ends the program.
\<close>

fun get_funcs :: "string list list \<Rightarrow> error + Function list" where
  "get_funcs [] = Inr []"
| "get_funcs (lines # blocks) =
     (case Function_init lines of
        Inl e \<Rightarrow> Inl e
      | Inr f \<Rightarrow>
          (case get_funcs blocks of
             Inl e \<Rightarrow> Inl e
           | Inr fs \<Rightarrow> Inr (f # fs)))"

definition process_lss :: "string list list \<Rightarrow> error + index" where
  "process_lss blocks =
     (case get_funcs blocks of
        Inl e \<Rightarrow> Inl e
      | Inr fs \<Rightarrow> Inr (fold (\<lambda>f all_funcs. all_funcs(name f \<mapsto> f)) fs Map.empty))"

text \<open>
  The program from the blocks of a listing to what it prints: the index is built, then
  \<open>main\<close> walks the tree. \<open>Inl\<close> is an exception raised while the index is built.
\<close>

definition analyse ::
  "string list list \<Rightarrow> string \<Rightarrow> error + message list \<times> line list \<times> error option" where
  "analyse blocks func =
     (case process_lss blocks of
        Inl e \<Rightarrow> Inl e
      | Inr all_funcs \<Rightarrow> Inr (main all_funcs func))"

section \<open>Vocabulary of the statements\<close>

text \<open>
  The opcode of a body line as the instruction matcher reads it (\<open>None\<close> for a line
  that is no instruction), the opcodes of the instruction lines of a body in order,
  and the number of \<^verbatim>\<open>in\<close> instructions of a body.
\<close>

definition opcode :: "string \<Rightarrow> string option" where
  "opcode l = map_option fst (instr_line_pat (py_strip l))"

definition opcodes :: "string list \<Rightarrow> string list" where
  "opcodes bd = List.map_filter opcode bd"

definition count_in :: "string list \<Rightarrow> nat" where
  "count_in bd = length (filter (\<lambda>opc. opc = ''in'') (opcodes bd))"

text \<open>
  The lines of a body that come after its \<open>k\<close>-th \<^verbatim>\<open>in\<close> instruction (none when it
  has fewer), and the lines at which the estimator, once it has seen two \<^verbatim>\<open>in\<close>
  instructions, does not go on to the next line: an \<^verbatim>\<open>sbiw\<close> or \<^verbatim>\<open>subi\<close> whose
  first operand is \<^verbatim>\<open>r28,\<close>, or one with no operand at all.
\<close>

fun after_in :: "nat \<Rightarrow> string list \<Rightarrow> string list" where
  "after_in 0 bd = bd"
| "after_in (Suc k) [] = []"
| "after_in (Suc k) (b # bd) =
     (if opcode b = Some ''in'' then after_in k bd else after_in (Suc k) bd)"

definition frame_subtract :: "string \<Rightarrow> bool" where
  "frame_subtract l =
     (case instr_line_pat (py_strip l) of
        None \<Rightarrow> False
      | Some (opc, rest) \<Rightarrow>
          opc \<in> {''sbiw'', ''subi''} \<and>
          (case rest of
             None \<Rightarrow> True
           | Some r \<Rightarrow> (case py_split r of [] \<Rightarrow> True | v0 # vs \<Rightarrow> v0 = ''r28,'')))"

text \<open>
  The callees one body line contributes by the rules of the call-target resolver:
  the line is an instruction with a remainder, its opcode is \<^verbatim>\<open>call\<close> or
  \<^verbatim>\<open>rcall\<close>, or \<^verbatim>\<open>jmp\<close> or \<^verbatim>\<open>rjmp\<close> on the last line, and the remainder
  carries the resolved comment.
\<close>

definition call_edges :: "string \<Rightarrow> bool \<Rightarrow> string set" where
  "call_edges l is_last =
     {n. \<exists>opc r. instr_line_pat (py_strip l) = Some (opc, Some r) \<and>
           (opc \<in> {''call'', ''rcall''} \<or> opc \<in> {''jmp'', ''rjmp''} \<and> is_last) \<and>
           rest_pat r = Some n}"

section \<open>Inputs used in the examples\<close>

text \<open>A block that is a header line and nothing else.\<close>

definition header_only_block :: "string list" where
  "header_only_block = [''00000978 <realloc>:'']"

text \<open>An \<^verbatim>\<open>rcall\<close> line with no operand and no comment.\<close>

definition bare_rcall_line :: string where
  "bare_rcall_line = '' 9f8: 20 df rcall''"

text \<open>Lines of a prologue, as the listing prints them.\<close>

definition push_r28 :: string where
  "push_r28 = ''    5746: cf 93        push r28''"


definition push_r17 :: string where
  "push_r17 = ''    574a: 1f 93        push r17''"

definition in_r28 :: string where
  "in_r28 = ''    574c: cd b7        in r28, 0x3d ; 61''"

definition in_r29 :: string where
  "in_r29 = ''    574e: de b7        in r29, 0x3e ; 62''"

definition sbiw_r28 :: string where
  "sbiw_r28 = ''    5750: 2e 97        sbiw r28, 0x0e ; 14''"


definition sbiw_r26 :: string where
  "sbiw_r26 = ''    5758: 11 97        sbiw r26, 0x01 ; 1''"

definition nop_line :: string where
  "nop_line = ''    5752: 00 00        nop''"

definition ret_line :: string where
  "ret_line = ''    5754: 08 95        ret''"

text \<open>
  A block with a call, a jump in the middle, an indirect call and a jump on the last
  line, and the \<open>Function\<close> the constructor makes of it.
\<close>

definition realloc_block :: "string list" where
  "realloc_block =
     [''00000978 <realloc>:'',
      ''     978: 0f 93        push r16'',
      ''     97a: 20 df        rcall .-448      ; 0x83a <free>'',
      ''     97c: 0c 94 50 05  jmp 0xaa0        ; 0xaa0 <elsewhere>'',
      ''     980: 09 95        icall'',
      ''     982: 0c 94 6e 03  jmp 0x6dc        ; 0x6dc <malloc>'']"

definition realloc_function :: Function where
  "realloc_function =
     \<lparr>name = ''realloc'', addr = 2424, body = tl realloc_block,
      callees = [''malloc'', ''free''], stacksize = 1\<rparr>"

text \<open>
  A listing with a cycle of two functions, and a listing with a chain of 22 functions,
  \<open>a\<close> calling \<open>b\<close> calling \<open>c\<close> and so on to \<open>v\<close>; each function has one
  \<^verbatim>\<open>push\<close>, so its stack size is 1.
\<close>

definition cycle_listing :: "string list list" where
  "cycle_listing =
     [[''00000100 <A>:'',
       ''     100: cf 93        push r28'',
       ''     102: 0e 94 84 00  call 0x108       ; 0x108 <B>'',
       ''     106: 08 95        ret''],
      [''00000108 <B>:'',
       ''     108: df 93        push r29'',
       ''     10a: 0e 94 80 00  call 0x100       ; 0x100 <A>'',
       ''     10e: 08 95        ret'']]"

definition chain_listing :: "string list list" where
  "chain_listing =
     [[''00000100 <a>:'',
       ''     100: cf 93        push r28'',
       ''     102: 0e 94 00 00  call 0x108      ; 0x108 <b>'',
       ''     106: 08 95        ret''],
      [''00000108 <b>:'',
       ''     108: cf 93        push r28'',
       ''     10a: 0e 94 00 00  call 0x110      ; 0x110 <c>'',
       ''     10e: 08 95        ret''],
      [''00000110 <c>:'',
       ''     110: cf 93        push r28'',
       ''     112: 0e 94 00 00  call 0x118      ; 0x118 <d>'',
       ''     116: 08 95        ret''],
      [''00000118 <d>:'',
       ''     118: cf 93        push r28'',
       ''     11a: 0e 94 00 00  call 0x120      ; 0x120 <e>'',
       ''     11e: 08 95        ret''],
      [''00000120 <e>:'',
       ''     120: cf 93        push r28'',
       ''     122: 0e 94 00 00  call 0x128      ; 0x128 <f>'',
       ''     126: 08 95        ret''],
      [''00000128 <f>:'',
       ''     128: cf 93        push r28'',
       ''     12a: 0e 94 00 00  call 0x130      ; 0x130 <g>'',
       ''     12e: 08 95        ret''],
      [''00000130 <g>:'',
       ''     130: cf 93        push r28'',
       ''     132: 0e 94 00 00  call 0x138      ; 0x138 <h>'',
       ''     136: 08 95        ret''],
      [''00000138 <h>:'',
       ''     138: cf 93        push r28'',
       ''     13a: 0e 94 00 00  call 0x140      ; 0x140 <i>'',
       ''     13e: 08 95        ret''],
      [''00000140 <i>:'',
       ''     140: cf 93        push r28'',
       ''     142: 0e 94 00 00  call 0x148      ; 0x148 <j>'',
       ''     146: 08 95        ret''],
      [''00000148 <j>:'',
       ''     148: cf 93        push r28'',
       ''     14a: 0e 94 00 00  call 0x150      ; 0x150 <k>'',
       ''     14e: 08 95        ret''],
      [''00000150 <k>:'',
       ''     150: cf 93        push r28'',
       ''     152: 0e 94 00 00  call 0x158      ; 0x158 <l>'',
       ''     156: 08 95        ret''],
      [''00000158 <l>:'',
       ''     158: cf 93        push r28'',
       ''     15a: 0e 94 00 00  call 0x160      ; 0x160 <m>'',
       ''     15e: 08 95        ret''],
      [''00000160 <m>:'',
       ''     160: cf 93        push r28'',
       ''     162: 0e 94 00 00  call 0x168      ; 0x168 <n>'',
       ''     166: 08 95        ret''],
      [''00000168 <n>:'',
       ''     168: cf 93        push r28'',
       ''     16a: 0e 94 00 00  call 0x170      ; 0x170 <o>'',
       ''     16e: 08 95        ret''],
      [''00000170 <o>:'',
       ''     170: cf 93        push r28'',
       ''     172: 0e 94 00 00  call 0x178      ; 0x178 <p>'',
       ''     176: 08 95        ret''],
      [''00000178 <p>:'',
       ''     178: cf 93        push r28'',
       ''     17a: 0e 94 00 00  call 0x180      ; 0x180 <q>'',
       ''     17e: 08 95        ret''],
      [''00000180 <q>:'',
       ''     180: cf 93        push r28'',
       ''     182: 0e 94 00 00  call 0x188      ; 0x188 <r>'',
       ''     186: 08 95        ret''],
      [''00000188 <r>:'',
       ''     188: cf 93        push r28'',
       ''     18a: 0e 94 00 00  call 0x190      ; 0x190 <s>'',
       ''     18e: 08 95        ret''],
      [''00000190 <s>:'',
       ''     190: cf 93        push r28'',
       ''     192: 0e 94 00 00  call 0x198      ; 0x198 <t>'',
       ''     196: 08 95        ret''],
      [''00000198 <t>:'',
       ''     198: cf 93        push r28'',
       ''     19a: 0e 94 00 00  call 0x1a0      ; 0x1a0 <u>'',
       ''     19e: 08 95        ret''],
      [''000001a0 <u>:'',
       ''     1a0: cf 93        push r28'',
       ''     1a2: 0e 94 00 00  call 0x1a8      ; 0x1a8 <v>'',
       ''     1a6: 08 95        ret''],
      [''000001a8 <v>:'',
       ''     1a8: cf 93        push r28'',
       ''     1ae: 08 95        ret'']]"

text \<open>
  The chain of \<open>chain_listing\<close> with its last function, \<open>v\<close>, calling itself.
\<close>

definition deep_self_listing :: "string list list" where
  "deep_self_listing =
     butlast chain_listing @
     [[''000001a8 <v>:'',
       ''     1a8: cf 93        push r28'',
       ''     1aa: 0e 94 d4 00  call 0x1a8      ; 0x1a8 <v>'',
       ''     1ae: 08 95        ret'']]"

text \<open>
  Indexes given directly. The walker reads the stack size and the callees of a
  \<open>Function\<close> only; \<open>fn\<close> fills in the other fields.
\<close>

definition fn :: "string \<Rightarrow> int \<Rightarrow> string list \<Rightarrow> Function" where
  "fn n sz cs = \<lparr>name = n, addr = 0, body = [ret_line], callees = cs, stacksize = sz\<rparr>"

definition abc_index :: index where
  "abc_index = [''A'' \<mapsto> fn ''A'' 10 [''B''], ''B'' \<mapsto> fn ''B'' 5 [''C''],
                ''C'' \<mapsto> fn ''C'' 3 []]"

definition tree_bc :: index where
  "tree_bc = [''A'' \<mapsto> fn ''A'' 10 [''B'', ''C''], ''B'' \<mapsto> fn ''B'' 5 [''D''],
              ''C'' \<mapsto> fn ''C'' 3 [], ''D'' \<mapsto> fn ''D'' 7 []]"

definition tree_cb :: index where
  "tree_cb = [''A'' \<mapsto> fn ''A'' 10 [''C'', ''B''], ''B'' \<mapsto> fn ''B'' 5 [''D''],
              ''C'' \<mapsto> fn ''C'' 3 [], ''D'' \<mapsto> fn ''D'' 7 []]"

text \<open>
  A function that calls itself after another callee, and the same function when that
  other callee leads into the cycle of \<open>g\<close> and \<open>h\<close>.
\<close>

definition late_self_index :: index where
  "late_self_index = [''f'' \<mapsto> fn ''f'' 4 [''g'', ''f''], ''g'' \<mapsto> fn ''g'' 2 []]"

definition cycle_before_self_index :: index where
  "cycle_before_self_index =
     [''f'' \<mapsto> fn ''f'' 4 [''g'', ''f''], ''g'' \<mapsto> fn ''g'' 2 [''h''],
      ''h'' \<mapsto> fn ''h'' 1 [''g'']]"

text \<open>The cumulative stack sizes of the node lines of an output, in order.\<close>

fun cumulative :: "line \<Rightarrow> int option" where
  "cumulative (Node c own l n) = Some c"
| "cumulative _ = None"

definition cumulatives :: "line list \<Rightarrow> int list" where
  "cumulatives out = List.map_filter cumulative out"

text \<open>
  The index with every self-call taken out of the callee sets, and the lines that
  report a self-call.
\<close>

definition no_self :: "index \<Rightarrow> index" where
  "no_self a = (\<lambda>n. map_option (\<lambda>f. f\<lparr>callees := filter (\<lambda>c. c \<noteq> n) (callees f)\<rparr>) (a n))"

fun is_marker :: "line \<Rightarrow> bool" where
  "is_marker (Recursive l n) = True"
| "is_marker _ = False"

text \<open>
  Two indexes that differ at most in the order in which each function's callee set
  is enumerated: the same names are present, with the same stack sizes and the same
  sets of callees.
\<close>

definition same_up_to_order :: "index \<Rightarrow> index \<Rightarrow> bool" where
  "same_up_to_order a b =
     (\<forall>n. rel_option (\<lambda>f g. stacksize f = stacksize g \<and> set (callees f) = set (callees g))
            (a n) (b n))"

section \<open>The scan of the stack-frame estimator over a prefix of the body\<close>

lemma opcodes_Cons:
  "opcodes (b # bd) = (case opcode b of None \<Rightarrow> opcodes bd | Some opc \<Rightarrow> opc # opcodes bd)"
  unfolding opcodes_def by simp

lemma after_in_rest:
  "n \<le> 2 \<Longrightarrow> \<forall>l \<in> set (after_in (2 - n) (b # pre)). \<not> frame_subtract l \<Longrightarrow>
   opcode b \<noteq> Some ''in'' \<or> n = 2 \<Longrightarrow>
   \<forall>l \<in> set (after_in (2 - n) pre). \<not> frame_subtract l"
  by (cases "2 - n") auto

lemma after_in_in:
  "n < 2 \<Longrightarrow> \<forall>l \<in> set (after_in (2 - n) (b # pre)). \<not> frame_subtract l \<Longrightarrow>
   opcode b = Some ''in'' \<Longrightarrow>
   \<forall>l \<in> set (after_in (2 - Suc n) pre). \<not> frame_subtract l"
proof -
  assume n: "n < 2" and h: "\<forall>l \<in> set (after_in (2 - n) (b # pre)). \<not> frame_subtract l"
    and o: "opcode b = Some ''in''"
  from n have "2 - n = Suc (2 - Suc n)" by simp
  with h o show ?thesis by simp
qed

lemma after_in_head:
  "\<forall>l \<in> set (after_in (2 - n) (b # pre)). \<not> frame_subtract l \<Longrightarrow> n = 2 \<Longrightarrow>
   \<not> frame_subtract b"
  by simp

lemma scan_state:
  "n \<le> 2 \<Longrightarrow> \<forall>l \<in> set (after_in (2 - n) pre). \<not> frame_subtract l \<Longrightarrow>
   count_pushes_loop (pre @ post) c d n =
   count_pushes_loop post
     (c + (if d then 0 else int (length (takeWhile (\<lambda>opc. opc = ''push'') (opcodes pre)))))
     (d \<or> (\<exists>x \<in> set (opcodes pre). x \<noteq> ''push''))
     (min 2 (n + count_in pre))"
proof (induction pre arbitrary: c d n)
  case Nil
  then show ?case by (simp add: opcodes_def count_in_def)
next
  case (Cons b pre)
  show ?case
  proof (cases "instr_line_pat (py_strip b)")
    case None
    then have o: "opcode b = None" by (simp add: opcode_def)
    then have oc: "opcodes (b # pre) = opcodes pre" by (simp add: opcodes_Cons)
    then have ci: "count_in (b # pre) = count_in pre" by (simp add: count_in_def)
    from o have "opcode b \<noteq> Some ''in'' \<or> n = 2" by simp
    note ih = Cons.IH [OF Cons.prems(1) after_in_rest [OF Cons.prems this], of c d]
    have "count_pushes_loop ((b # pre) @ post) c d n = count_pushes_loop (pre @ post) c d n"
      using None by simp
    with ih show ?thesis by (simp only: oc ci)
  next
    case (Some p)
    obtain opc rest where p: "p = (opc, rest)" by (cases p)
    with Some have o: "opcode b = Some opc" by (simp add: opcode_def)
    then have oc: "opcodes (b # pre) = opc # opcodes pre" by (simp add: opcodes_Cons)
    consider (push) "\<not> d" "opc = ''push''"
      | (inn) "\<not> (\<not> d \<and> opc = ''push'')" "n < 2" "opc = ''in''"
      | (sub) "\<not> (\<not> d \<and> opc = ''push'')" "\<not> (n < 2 \<and> opc = ''in'')" "n = 2"
              "opc \<in> {''sbiw'', ''subi''}"
      | (other) "\<not> (\<not> d \<and> opc = ''push'')" "\<not> (n < 2 \<and> opc = ''in'')"
              "\<not> (n = 2 \<and> opc \<in> {''sbiw'', ''subi''})"
      by blast
    then show ?thesis
    proof cases
      case push
      with o have "opcode b \<noteq> Some ''in'' \<or> n = 2" by simp
      note ih = Cons.IH [OF Cons.prems(1) after_in_rest [OF Cons.prems this], of "c + 1" d]
      have step: "count_pushes_loop ((b # pre) @ post) c d n =
                  count_pushes_loop (pre @ post) (c + 1) d n"
        using Some p push by simp
      have ci: "count_in (b # pre) = count_in pre"
        using oc push by (simp add: count_in_def)
      have tw: "int (length (takeWhile (\<lambda>opc. opc = ''push'') (opcodes (b # pre)))) =
                1 + int (length (takeWhile (\<lambda>opc. opc = ''push'') (opcodes pre)))"
        using oc push by simp
      have ex: "(\<exists>x \<in> set (opcodes (b # pre)). x \<noteq> ''push'') =
                (\<exists>x \<in> set (opcodes pre). x \<noteq> ''push'')"
        using oc push by simp
      from push(1) show ?thesis
        unfolding step ih ci tw ex by (simp add: add.assoc)
    next
      case inn
      then have n: "Suc n \<le> 2" by simp
      from o inn(3) have oi: "opcode b = Some ''in''" by simp
      note ih = Cons.IH [OF n after_in_in [OF inn(2) Cons.prems(2) oi], of c True]
      have step: "count_pushes_loop ((b # pre) @ post) c d n =
                  count_pushes_loop (pre @ post) c True (Suc n)"
        using Some p inn by simp
      have ci: "count_in (b # pre) = Suc (count_in pre)"
        using oc inn by (simp add: count_in_def)
      have tw: "takeWhile (\<lambda>opc. opc = ''push'') (opcodes (b # pre)) = []"
        using oc inn by simp
      have ex: "\<exists>x \<in> set (opcodes (b # pre)). x \<noteq> ''push''"
        using oc inn by simp
      have "count_pushes_loop ((b # pre) @ post) c d n =
            count_pushes_loop post c True (min 2 (Suc n + count_in pre))"
        using step ih by simp
      also have "\<dots> = count_pushes_loop post
           (c + (if d then 0
                 else int (length (takeWhile (\<lambda>opc. opc = ''push'') (opcodes (b # pre))))))
           (d \<or> (\<exists>x \<in> set (opcodes (b # pre)). x \<noteq> ''push''))
           (min 2 (n + count_in (b # pre)))"
        using ex by (simp only: ci tw) simp
      finally show ?thesis .
    next
      case sub
      from after_in_head [OF Cons.prems(2) sub(3)] Some p sub(4)
      obtain r v0 vs where r: "rest = Some r" "py_split r = v0 # vs" "v0 \<noteq> ''r28,''"
        by (auto simp: frame_subtract_def split: option.splits list.splits)
      from sub have "opcode b \<noteq> Some ''in'' \<or> n = 2" by simp
      note ih = Cons.IH [OF Cons.prems(1) after_in_rest [OF Cons.prems this], of c True]
      have np: "opc \<noteq> ''push''" "opc \<noteq> ''in''" using sub(4) by auto
      have step: "count_pushes_loop ((b # pre) @ post) c d n =
                  count_pushes_loop (pre @ post) c True n"
        using Some p sub r np by simp
      have ci: "count_in (b # pre) = count_in pre"
        using oc np by (simp add: count_in_def)
      have tw: "takeWhile (\<lambda>opc. opc = ''push'') (opcodes (b # pre)) = []"
        using oc np by simp
      have ex: "\<exists>x \<in> set (opcodes (b # pre)). x \<noteq> ''push''"
        using oc np by simp
      show ?thesis
        unfolding step ih ci tw using ex by simp
    next
      case other
      then have "opcode b \<noteq> Some ''in'' \<or> n = 2" using o Cons.prems(1) by auto
      note ih = Cons.IH [OF Cons.prems(1) after_in_rest [OF Cons.prems this], of c True]
      have step: "count_pushes_loop ((b # pre) @ post) c d n =
                  count_pushes_loop (pre @ post) c True n"
        using Some p other by auto
      have mn: "min 2 (n + count_in (b # pre)) = min 2 (n + count_in pre)"
        using oc other Cons.prems(1) by (cases "opc = ''in''") (simp_all add: count_in_def)
      have dd: "d \<or> opc \<noteq> ''push''" using other(1) by blast
      have tw: "\<not> d \<Longrightarrow> takeWhile (\<lambda>opc. opc = ''push'') (opcodes (b # pre)) = []"
        using oc dd by simp
      have ex: "\<not> d \<Longrightarrow> \<exists>x \<in> set (opcodes (b # pre)). x \<noteq> ''push''"
        using oc dd by simp
      show ?thesis
      proof (cases d)
        case True
        then show ?thesis unfolding step ih mn by simp
      next
        case False
        with tw ex show ?thesis unfolding step ih mn by simp
      qed
    qed
  qed
qed

lemma scan_result:
  assumes "\<forall>l \<in> set (after_in 2 pre). \<not> frame_subtract l"
  shows "count_pushes pre =
           Inr (int (length (takeWhile (\<lambda>opc. opc = ''push'') (opcodes pre))))"
  using scan_state [of 0 pre "[]" 0 False] assms by (simp add: count_pushes_def)

lemma scan_tail:
  assumes "n \<le> 2" "opcode in1 = Some ''in''" "opcode in2 = Some ''in''"
    "instr_line_pat (py_strip sub) = Some (opc, Some r)" "opc \<in> {''sbiw'', ''subi''}"
    "py_split r = ''r28,'' # imm # vs" "py_int16 imm = Some v"
  shows "count_pushes_loop ([in1, in2, sub] @ post) c d n = Inr (c + v)"
proof -
  from assms(2,3) obtain r1 r2 where
    i: "instr_line_pat (py_strip in1) = Some (''in'', r1)"
       "instr_line_pat (py_strip in2) = Some (''in'', r2)"
    by (auto simp: opcode_def)
  from assms(1) consider "n = 0" | "n = 1" | "n = 2" by linarith
  then show ?thesis
    using assms(4-7) i by cases auto
qed

lemma scan_alive:
  assumes "\<forall>l \<in> set (after_in 2 pre). \<not> frame_subtract l"
    "opcode in1 = Some ''in''" "opcode in2 = Some ''in''"
    "instr_line_pat (py_strip sub) = Some (opc, Some r)" "opc \<in> {''sbiw'', ''subi''}"
    "py_split r = ''r28,'' # imm # vs" "py_int16 imm = Some v"
  shows "count_pushes (pre @ [in1, in2, sub] @ post) =
           Inr (int (length (takeWhile (\<lambda>opc. opc = ''push'') (opcodes pre))) + v)"
proof -
  have "min 2 (count_in pre) \<le> 2" by simp
  from scan_tail [OF this assms(2-7)]
    scan_state [of 0 pre "[in1, in2, sub] @ post" 0 False] assms(1)
  show ?thesis by (simp add: count_pushes_def)
qed

lemma no_subtract_no_frame_subtract:
  "\<forall>l \<in> set bd. opcode l \<noteq> Some ''sbiw'' \<and> opcode l \<noteq> Some ''subi'' \<Longrightarrow>
   \<forall>l \<in> set (after_in k bd). \<not> frame_subtract l"
proof (induction k bd rule: after_in.induct)
  case (1 bd)
  then show ?case
    by (auto simp: frame_subtract_def opcode_def split: option.splits)
next
  case (2 k)
  then show ?case by simp
next
  case (3 k b bd)
  then show ?case by auto
qed

section \<open>The stack-frame estimator on the canonical shapes\<close>




section \<open>The stack-frame estimator when the sequence is broken\<close>

text \<open>
  Claim C4 as stated, at an input where it fails. After one \<^verbatim>\<open>push\<close> the \<^verbatim>\<open>nop\<close>
  breaks the expected sequence, and the count accumulated at that point is 1; the
  claim says that no later instruction can change the result. The loop has no
  \<^verbatim>\<open>break\<close> for an instruction that does not fit: it goes on, reads the two \<^verbatim>\<open>in\<close>
  instructions and adds the 14 of the \<^verbatim>\<open>sbiw\<close>.
\<close>

theorem count_pushes_broken_sequence_counterexample:
  "count_pushes [push_r28, nop_line] = Inr 1
   \<and> count_pushes ([push_r28, nop_line] @ [in_r28, in_r29, sbiw_r28]) = Inr 15"
  by code_simp

lemma loop_skip:
  assumes "opcode l = Some opc" "opc \<noteq> ''in''" "opc \<noteq> ''sbiw''" "opc \<noteq> ''subi''"
  shows "d \<or> (\<exists>x \<in> set (opcodes pre). x \<noteq> ''push'') \<Longrightarrow>
         count_pushes_loop (pre @ l # post) c d n = count_pushes_loop (pre @ post) c d n"
proof (induction pre arbitrary: c d n)
  case Nil
  then have "d" by (simp add: opcodes_def)
  with assms show ?case by (auto simp: opcode_def)
next
  case (Cons b pre)
  show ?case
  proof (cases "instr_line_pat (py_strip b)")
    case None
    with Cons.prems have "d \<or> (\<exists>x \<in> set (opcodes pre). x \<noteq> ''push'')"
      by (simp add: opcodes_Cons opcode_def)
    from Cons.IH [OF this] None show ?thesis by simp
  next
    case (Some p)
    obtain o1 r1 where p: "p = (o1, r1)" by (cases p)
    have t: "count_pushes_loop (pre @ l # post) c' True n' = count_pushes_loop (pre @ post) c' True n'"
      for c' n' by (rule Cons.IH) simp
    show ?thesis
    proof (cases "\<not> d \<and> o1 = ''push''")
      case True
      with Cons.prems Some p have "d \<or> (\<exists>x \<in> set (opcodes pre). x \<noteq> ''push'')"
        by (simp add: opcodes_Cons opcode_def)
      from Cons.IH [OF this] True Some p show ?thesis by simp
    next
      case False
      with Some p t show ?thesis
        by (auto split: option.splits list.splits)
    qed
  qed
qed

lemma loop_stop:
  assumes "instr_line_pat (py_strip sub) = Some (opc, Some r)" "opc \<in> {''sbiw'', ''subi''}"
    "py_split r = ''r28,'' # vs"
  shows "n \<le> 2 \<Longrightarrow> 2 \<le> n + count_in pre \<Longrightarrow>
         count_pushes_loop (pre @ sub # post) c d n = count_pushes_loop (pre @ [sub]) c d n"
proof (induction pre arbitrary: c d n)
  case Nil
  then have "n = 2" by (simp add: count_in_def opcodes_def)
  with assms show ?case by (auto split: list.splits option.splits)
next
  case (Cons b pre)
  show ?case
  proof (cases "instr_line_pat (py_strip b)")
    case None
    with Cons.prems have "2 \<le> n + count_in pre"
      by (simp add: count_in_def opcodes_Cons opcode_def)
    from Cons.IH [OF Cons.prems(1) this] None show ?thesis by simp
  next
    case (Some p)
    obtain o1 r1 where p: "p = (o1, r1)" by (cases p)
    show ?thesis
    proof (cases "o1 = ''in''")
      case True
      show ?thesis
      proof (cases "n < 2")
        case True
        with \<open>o1 = ''in''\<close> Cons.prems Some p have "Suc n \<le> 2" "2 \<le> Suc n + count_in pre"
          by (simp_all add: count_in_def opcodes_Cons opcode_def)
        from Cons.IH [OF this] True \<open>o1 = ''in''\<close> Some p show ?thesis by simp
      next
        case False
        with Cons.prems have "n = 2" by simp
        then have "2 \<le> n + count_in pre" by simp
        from Cons.IH [OF Cons.prems(1) this] \<open>n = 2\<close> \<open>o1 = ''in''\<close> Some p show ?thesis by simp
      qed
    next
      case False
      with Cons.prems Some p have "2 \<le> n + count_in pre"
        by (simp add: count_in_def opcodes_Cons opcode_def)
      from Cons.IH [OF Cons.prems(1) this] False Some p show ?thesis
        by (auto split: option.splits list.splits)
    qed
  qed
qed

text \<open>
  Claim C4 as amended. (1) Once a body has had an instruction that is not a
  \<^verbatim>\<open>push\<close>, a later \<^verbatim>\<open>push\<close> is never counted; more generally, a later instruction
  whose opcode is none of \<^verbatim>\<open>in\<close>, \<^verbatim>\<open>sbiw\<close>, \<^verbatim>\<open>subi\<close> is skipped: the result is the
  same as without that line, and the scan goes on after it. (2) The scan stops, and
  no later line can change the result, at an \<^verbatim>\<open>sbiw\<close> or \<^verbatim>\<open>subi\<close> whose first
  operand is \<^verbatim>\<open>r28,\<close> and which comes after two \<^verbatim>\<open>in\<close> instructions. (3) It stops
  nowhere else: after any lines \<open>pre'\<close> that have no such instruction (and no
  \<^verbatim>\<open>sbiw\<close> or \<^verbatim>\<open>subi\<close> without operand) after their second \<^verbatim>\<open>in\<close>, whatever else
  they hold, the count is the number of leading \<^verbatim>\<open>push\<close> instructions and the scan
  is still going: two \<^verbatim>\<open>in\<close> instructions and a subtraction from \<^verbatim>\<open>r28\<close> that follow
  add the immediate to it.
\<close>

theorem count_pushes_scan:
  "((\<exists>x \<in> set (opcodes pre). x \<noteq> ''push'') \<and> opcode l = Some opc \<and>
      opc \<notin> {''in'', ''sbiw'', ''subi''} \<longrightarrow>
      count_pushes (pre @ l # post) = count_pushes (pre @ post))
   \<and> (2 \<le> count_in pre \<and> instr_line_pat (py_strip sub) = Some (opc', Some r) \<and>
       opc' \<in> {''sbiw'', ''subi''} \<and> py_split r = ''r28,'' # vs \<longrightarrow>
      count_pushes (pre @ sub # post) = count_pushes (pre @ [sub]))
   \<and> ((\<forall>x \<in> set (after_in 2 pre'). \<not> frame_subtract x) \<and>
       opcode in1 = Some ''in'' \<and> opcode in2 = Some ''in'' \<and>
       instr_line_pat (py_strip sub') = Some (opc'', Some r') \<and>
       opc'' \<in> {''sbiw'', ''subi''} \<and>
       py_split r' = ''r28,'' # imm # vs' \<and> py_int16 imm = Some v \<longrightarrow>
      count_pushes pre' =
        Inr (int (length (takeWhile (\<lambda>opc. opc = ''push'') (opcodes pre')))) \<and>
      count_pushes (pre' @ [in1, in2, sub'] @ post') =
        Inr (int (length (takeWhile (\<lambda>opc. opc = ''push'') (opcodes pre'))) + v))"
proof (intro conjI impI)
  assume "(\<exists>x \<in> set (opcodes pre). x \<noteq> ''push'') \<and> opcode l = Some opc \<and>
      opc \<notin> {''in'', ''sbiw'', ''subi''}"
  then show "count_pushes (pre @ l # post) = count_pushes (pre @ post)"
    using loop_skip [of l opc False pre post 0 0] by (simp add: count_pushes_def)
next
  assume "2 \<le> count_in pre \<and> instr_line_pat (py_strip sub) = Some (opc', Some r) \<and>
       opc' \<in> {''sbiw'', ''subi''} \<and> py_split r = ''r28,'' # vs"
  then show "count_pushes (pre @ sub # post) = count_pushes (pre @ [sub])"
    using loop_stop [of sub opc' r vs 0 pre post 0 False] by (simp add: count_pushes_def)
next
  assume a: "(\<forall>x \<in> set (after_in 2 pre'). \<not> frame_subtract x) \<and>
       opcode in1 = Some ''in'' \<and> opcode in2 = Some ''in'' \<and>
       instr_line_pat (py_strip sub') = Some (opc'', Some r') \<and>
       opc'' \<in> {''sbiw'', ''subi''} \<and>
       py_split r' = ''r28,'' # imm # vs' \<and> py_int16 imm = Some v"
  then show "count_pushes pre' =
        Inr (int (length (takeWhile (\<lambda>opc. opc = ''push'') (opcodes pre'))))"
    using scan_result [of pre'] by simp
  from a show "count_pushes (pre' @ [in1, in2, sub'] @ post') =
        Inr (int (length (takeWhile (\<lambda>opc. opc = ''push'') (opcodes pre'))) + v)"
    using scan_alive [of pre' in1 in2 sub' opc'' r' imm vs' v post'] by simp
qed

theorem count_pushes_scan_witness:
  "count_pushes ([push_r28, nop_line, in_r28, in_r29] @ push_r17 # [ret_line])
     = count_pushes ([push_r28, nop_line, in_r28, in_r29] @ [ret_line])
   \<and> count_pushes ([push_r28, nop_line, in_r28, in_r29] @ sbiw_r28 # [ret_line])
       = count_pushes ([push_r28, nop_line, in_r28, in_r29] @ [sbiw_r28])
   \<and> count_pushes [push_r28, nop_line, in_r28, in_r29, sbiw_r26, push_r17] = Inr 1
   \<and> count_pushes ([push_r28, nop_line, in_r28, in_r29, sbiw_r26, push_r17] @
         [in_r28, in_r29, sbiw_r28] @ [ret_line]) = Inr (1 + 14)"
proof -
  have h1: "\<exists>x \<in> set (opcodes [push_r28, nop_line, in_r28, in_r29]). x \<noteq> ''push''"
    by code_simp
  have h2: "opcode push_r17 = Some ''push''"
    by code_simp
  have h3: "2 \<le> count_in [push_r28, nop_line, in_r28, in_r29]"
    by code_simp
  have h4: "instr_line_pat (py_strip sbiw_r28) = Some (''sbiw'', Some ''r28, 0x0e ; 14'')"
    by code_simp
  have h5: "py_split ''r28, 0x0e ; 14'' = ''r28,'' # ''0x0e'' # ['';'', ''14'']"
    by code_simp
  have h6: "\<forall>x \<in> set (after_in 2 [push_r28, nop_line, in_r28, in_r29, sbiw_r26, push_r17]).
              \<not> frame_subtract x"
    by code_simp
  have h7: "opcode in_r28 = Some ''in''" "opcode in_r29 = Some ''in''"
    by code_simp+
  have h8: "py_int16 ''0x0e'' = Some 14"
    by code_simp
  have h9: "int (length (takeWhile (\<lambda>opc. opc = ''push'')
              (opcodes [push_r28, nop_line, in_r28, in_r29, sbiw_r26, push_r17]))) = 1"
    by code_simp
  show ?thesis
    using count_pushes_scan [of "[push_r28, nop_line, in_r28, in_r29]" push_r17 "''push''"
        "[ret_line]" sbiw_r28 "''sbiw''" "''r28, 0x0e ; 14''" "[''0x0e'', '';'', ''14'']"
        "[push_r28, nop_line, in_r28, in_r29, sbiw_r26, push_r17]" in_r28 in_r29 sbiw_r28
        "''sbiw''" "''r28, 0x0e ; 14''" "''0x0e''" "['';'', ''14'']" 14 "[ret_line]"]
      h1 h2 h3 h4 h5 h6 h7 h8 h9
    by simp
qed

section \<open>Callee extraction\<close>

lemma analyse_call_set:
  "analyse_call cs l b = Inr cs' \<Longrightarrow> set cs' = set cs \<union> call_edges l b"
  unfolding analyse_call_def call_edges_def
  by (auto split: option.splits if_splits)

lemma analyse_call_distinct:
  "analyse_call cs l b = Inr cs' \<Longrightarrow> distinct cs \<Longrightarrow> distinct cs'"
  unfolding analyse_call_def
  by (auto split: option.splits if_splits)

lemma analyse_calls_set:
  "analyse_calls cs bs = Inr cs' \<Longrightarrow> set cs' = set cs \<union> (\<Union>l \<in> set bs. call_edges l False)"
proof (induction bs arbitrary: cs)
  case Nil
  then show ?case by simp
next
  case (Cons b bs)
  then obtain cs1 where 1: "analyse_call cs b False = Inr cs1" and 2: "analyse_calls cs1 bs = Inr cs'"
    by (auto split: sum.splits)
  from analyse_call_set [OF 1] Cons.IH [OF 2] show ?case by auto
qed

lemma analyse_calls_distinct:
  "analyse_calls cs bs = Inr cs' \<Longrightarrow> distinct cs \<Longrightarrow> distinct cs'"
proof (induction bs arbitrary: cs)
  case Nil
  then show ?case by simp
next
  case (Cons b bs)
  then obtain cs1 where 1: "analyse_call cs b False = Inr cs1" and 2: "analyse_calls cs1 bs = Inr cs'"
    by (auto split: sum.splits)
  from analyse_call_distinct [OF 1 Cons.prems(2)] Cons.IH [OF 2] show ?case by simp
qed

lemma Function_init_fields:
  assumes "Function_init lines = Inr f"
  obtains cs where "header lines = Inr (name f, addr f, body f)" "body f \<noteq> []"
    "analyse_calls [] (butlast (body f)) = Inr cs"
    "analyse_call cs (last (body f)) True = Inr (callees f)"
    "count_pushes (body f) = Inr (stacksize f)"
  using assms unfolding Function_init_def
  by (auto split: sum.splits if_splits)

lemma edges_by_index:
  assumes "bd \<noteq> []"
  shows "(\<Union>l \<in> set (butlast bd). call_edges l False) \<union> call_edges (last bd) True =
         (\<Union>i \<in> {..<length bd}. call_edges (bd ! i) (Suc i = length bd))"
proof -
  from assms obtain xs x where bd: "bd = xs @ [x]"
    by (metis append_butlast_last_id)
  have a: "(\<Union>l \<in> set xs. call_edges l False) =
           (\<Union>i \<in> {..<length xs}. call_edges ((xs @ [x]) ! i) (i = length xs))"
    by (fastforce simp: in_set_conv_nth nth_append)
  have s: "{..<Suc (length xs)} = insert (length xs) {..<length xs}"
    by auto
  show ?thesis
    unfolding bd by (simp add: a s Un_commute)
qed

text \<open>
  Claim C5. When the constructor returns a Function, its callee set holds no name
  twice and is exactly the set of names \<open>n\<close> for which some line \<open>i\<close> of the
  body is an instruction with opcode \<^verbatim>\<open>call\<close> or \<^verbatim>\<open>rcall\<close>, or with opcode
  \<^verbatim>\<open>jmp\<close> or \<^verbatim>\<open>rjmp\<close> and \<open>i\<close> the last line, whose remainder carries the
  resolved comment naming \<open>n\<close>. So an \<^verbatim>\<open>icall\<close>, and a \<^verbatim>\<open>jmp\<close> or \<^verbatim>\<open>rjmp\<close>
  that is not on the last line, add nothing.
\<close>

theorem callees_characterised:
  assumes "Function_init lines = Inr f"
  shows "distinct (callees f) \<and>
         set (callees f) =
           {n. \<exists>i opc r. i < length (body f) \<and>
                 instr_line_pat (py_strip (body f ! i)) = Some (opc, Some r) \<and>
                 (opc \<in> {''call'', ''rcall''} \<or>
                  opc \<in> {''jmp'', ''rjmp''} \<and> Suc i = length (body f)) \<and>
                 rest_pat r = Some n}"
proof -
  from assms obtain cs where ne: "body f \<noteq> []"
    and 1: "analyse_calls [] (butlast (body f)) = Inr cs"
    and 2: "analyse_call cs (last (body f)) True = Inr (callees f)"
    by (rule Function_init_fields)
  have "distinct cs" using analyse_calls_distinct [OF 1] by simp
  then have d: "distinct (callees f)" by (rule analyse_call_distinct [OF 2])
  have "set (callees f) =
          (\<Union>l \<in> set (butlast (body f)). call_edges l False) \<union> call_edges (last (body f)) True"
    using analyse_calls_set [OF 1] analyse_call_set [OF 2] by simp
  also have "\<dots> = (\<Union>i \<in> {..<length (body f)}. call_edges (body f ! i) (Suc i = length (body f)))"
    by (rule edges_by_index [OF ne])
  also have "\<dots> = {n. \<exists>i opc r. i < length (body f) \<and>
                 instr_line_pat (py_strip (body f ! i)) = Some (opc, Some r) \<and>
                 (opc \<in> {''call'', ''rcall''} \<or>
                  opc \<in> {''jmp'', ''rjmp''} \<and> Suc i = length (body f)) \<and>
                 rest_pat r = Some n}"
    unfolding call_edges_def by blast
  finally show ?thesis using d by simp
qed

lemma realloc_block_function: "Function_init realloc_block = Inr realloc_function"
  by code_simp

theorem callees_characterised_witness:
  "Function_init realloc_block = Inr realloc_function
   \<and> callees realloc_function = [''malloc'', ''free'']
   \<and> distinct (callees realloc_function)
   \<and> set (callees realloc_function) =
       {n. \<exists>i opc r. i < length (body realloc_function) \<and>
             instr_line_pat (py_strip (body realloc_function ! i)) = Some (opc, Some r) \<and>
             (opc \<in> {''call'', ''rcall''} \<or>
              opc \<in> {''jmp'', ''rjmp''} \<and> Suc i = length (body realloc_function)) \<and>
             rest_pat r = Some n}"
  using callees_characterised [OF realloc_block_function] realloc_block_function
  by (simp add: realloc_function_def)

section \<open>Callee extraction: the remainder that is absent\<close>

text \<open>
  A candidate whose remainder is there but carries no resolved comment adds nothing
  and raises nothing.
\<close>

lemma analyse_call_unresolved_silent:
  "instr_line_pat (py_strip line) = Some (opc, Some r) \<Longrightarrow> rest_pat r = None \<Longrightarrow>
   analyse_call cs line is_last = Inr cs"
  by (simp add: analyse_call_def)

text \<open>
  Claim C6, at the input where it fails. For a call instruction whose remainder is
  absent the claim says that nothing is added and nothing is raised; the code raises
  \<^verbatim>\<open>TypeError\<close>, because \<^verbatim>\<open>rest_pat.match\<close> is applied to \<^verbatim>\<open>None\<close>.
\<close>

theorem analyse_call_bare_rcall_raises:
  "analyse_call [] bare_rcall_line False = Inl TypeError"
  by code_simp

section \<open>Construction of a Function\<close>

text \<open>
  When the constructor returns a record, its name, address and body are what the
  header matcher gives: the name and address of the header and the lines after it, or
  the placeholder \<^verbatim>\<open>unknown\<close>, address 0 and all lines.
\<close>

lemma Function_init_record:
  assumes "Function_init lines = Inr f"
  shows "lines \<noteq> [] \<and>
         (case first_line_pat (hd lines) of
            Some (a, n) \<Rightarrow> name f = n \<and> py_int16 a = Some (addr f) \<and> body f = tl lines
          | None \<Rightarrow> name f = ''unknown'' \<and> addr f = 0 \<and> body f = lines)"
  using assms unfolding Function_init_def header_def
  by (auto split: sum.splits if_splits list.splits option.splits)

text \<open>
  Claim C7, at the input where it fails. The claim says that every symbol block
  yields a Function record without a fatal error; for a block that holds a header
  line only, the body is empty and \<^verbatim>\<open>self._body[-1]\<close> raises \<^verbatim>\<open>IndexError\<close>.
\<close>

theorem Function_init_header_only_raises:
  "Function_init header_only_block = Inl IndexError"
  by code_simp

section \<open>Names that are not in the index\<close>

text \<open>
  Claim C8. A name that is not in the index is a leaf: the walker prints one line
  for it, with the ancestors' total as cumulative size and 0 as its own size, expands
  nothing and returns the ancestors' total (beyond level 20 the depth marker follows
  and the call returns \<^verbatim>\<open>None\<close>, as for every node). For such a root name the
  program writes the message to the error stream, prints the line with both sizes 0
  and the summary line with deepest stack size 0, and ends without an exception.
\<close>

theorem absent_name_is_leaf:
  assumes "all_funcs funcname = None"
  shows "print_call_tree all_funcs funcname ss level =
           (if level > 20 then ([Node ss 0 level funcname, TooDeep level], Inr None)
            else ([Node ss 0 level funcname], Inr (Some ss)))
         \<and> main all_funcs funcname =
             ([NotFound funcname], [Node 0 0 0 funcname, Deepest 0], None)"
  using assms by (simp add: print_call_tree.simps main_def)

theorem absent_name_is_leaf_witness:
  "print_call_tree abc_index ''loop'' 7 3 = ([Node 7 0 3 ''loop''], Inr (Some 7))
   \<and> main abc_index ''loop'' = ([NotFound ''loop''], [Node 0 0 0 ''loop'', Deepest 0], None)"
proof -
  have "abc_index ''loop'' = None"
    by (simp add: abc_index_def)
  with absent_name_is_leaf [of abc_index "''loop''" 7 3] show ?thesis by simp
qed

section \<open>The walker: its result and its output, one step at a time\<close>

lemma pct_result:
  "snd (print_call_tree a n s l) =
     (if l > 20 then Inr None
      else case a n of
             None \<Rightarrow> Inr (Some s)
           | Some f \<Rightarrow>
               (case snd (walk_callees a n (s + stacksize f) l (callees f) (s + stacksize f)) of
                  Inl e \<Rightarrow> Inl e
                | Inr m \<Rightarrow> Inr (Some m)))"
  by (simp add: print_call_tree.simps Let_def split: option.splits prod.splits sum.splits)

lemma pct_output:
  "fst (print_call_tree a n s l) =
     (case a n of
        None \<Rightarrow> Node s 0 l n # (if l > 20 then [TooDeep l] else [])
      | Some f \<Rightarrow> Node (s + stacksize f) (stacksize f) l n #
          (if l > 20 then [TooDeep l]
           else fst (walk_callees a n (s + stacksize f) l (callees f) (s + stacksize f))))"
  by (simp add: print_call_tree.simps Let_def split: option.splits prod.splits sum.splits)

lemma walk_error:
  "snd (print_call_tree a n s l) = Inl e \<Longrightarrow> e = TypeError"
  "snd (walk_callees a n s l cs m) = Inl e \<Longrightarrow> e = TypeError"
proof (induction a n s l and a n s l cs m rule: print_call_tree_walk_callees.induct)
  case (1 all_funcs funcname ss level)
  then show ?case
    by (auto simp: pct_result split: if_splits option.splits sum.splits prod.splits)
next
  case (2 all_funcs funcname ss level max_ss)
  then show ?case by simp
next
  case (3 all_funcs funcname ss level c cs max_ss)
  then show ?case
    by (auto split: if_splits option.splits sum.splits prod.splits)
qed

lemma wc_result_Cons:
  "snd (walk_callees a n s l (c # cs) m) =
     (if c = n then snd (walk_callees a n s l cs m)
      else case snd (print_call_tree a c s (l + 1)) of
             Inr (Some v) \<Rightarrow> snd (walk_callees a n s l cs (max v m))
           | _ \<Rightarrow> Inl TypeError)"
  using walk_error(1) [of a c s "l + 1"]
  by (auto split: prod.splits sum.splits option.splits)


lemma wc_output_Cons:
  "fst (walk_callees a n s l (c # cs) m) =
     (if c = n then Recursive l n # fst (walk_callees a n s l cs m)
      else fst (print_call_tree a c s (l + 1)) @
           (case snd (print_call_tree a c s (l + 1)) of
              Inr (Some v) \<Rightarrow> fst (walk_callees a n s l cs (max v m))
            | _ \<Rightarrow> []))"
  by (auto split: prod.splits sum.splits option.splits)

section \<open>The value the walker returns\<close>

lemma cumulatives_simps:
  "cumulatives [] = []"
  "cumulatives (Node c own l n # out) = c # cumulatives out"
  "cumulatives (Recursive l n # out) = cumulatives out"
  "cumulatives (TooDeep l # out) = cumulatives out"
  "cumulatives (xs @ ys) = cumulatives xs @ cumulatives ys"
  by (simp_all add: cumulatives_def List.map_filter_def)

lemma Max_step:
  fixes m :: int
  assumes "finite A" "A \<noteq> {}" "finite B"
  shows "Max (insert (max (Max A) m) B) = Max (insert m (A \<union> B))"
proof -
  have "Max (insert m (A \<union> B)) = Max (A \<union> insert m B)" by simp
  also have "\<dots> = max (Max A) (Max (insert m B))"
    using assms by (intro Max_Un) simp_all
  also have "\<dots> = Max (insert (max (Max A) m) B)"
    using assms(3) by (cases "B = {}") (simp_all add: max.assoc)
  finally show ?thesis by simp
qed

lemma cumulatives_nonempty:
  "cumulatives (fst (print_call_tree a n s l)) \<noteq> []"
  by (simp add: pct_output cumulatives_simps split: option.splits)

lemma walk_returns_max:
  "snd (print_call_tree a n s l) = Inr (Some r) \<Longrightarrow>
     r = Max (set (cumulatives (fst (print_call_tree a n s l))))"
  "snd (walk_callees a n s l cs m) = Inr r \<Longrightarrow>
     r = Max (insert m (set (cumulatives (fst (walk_callees a n s l cs m)))))"
proof (induction a n s l and a n s l cs m arbitrary: r and r rule: print_call_tree_walk_callees.induct)
  case (1 all_funcs funcname ss level)
  show ?case
  proof (cases "all_funcs funcname")
    case None
    with 1(2) show ?thesis
      by (simp add: pct_result pct_output cumulatives_simps split: if_splits)
  next
    case (Some f)
    from 1(2) Some have lv: "\<not> level > 20"
      and w: "snd (walk_callees all_funcs funcname (ss + stacksize f) level (callees f)
                 (ss + stacksize f)) = Inr r"
      by (auto simp: pct_result split: if_splits sum.splits)
    from 1(1) [OF refl refl refl refl lv Some _] Some w lv show ?thesis
      by (simp add: pct_output cumulatives_simps)
  qed
next
  case (2 all_funcs funcname ss level max_ss)
  then show ?case by (simp add: cumulatives_simps)
next
  case (3 all_funcs funcname ss level c cs max_ss)
  show ?case
  proof (cases "c = funcname")
    case True
    with 3(4) have "snd (walk_callees all_funcs funcname ss level cs max_ss) = Inr r"
      by (simp add: wc_result_Cons del: walk_callees.simps)
    from 3(1) [OF True this] True show ?thesis
      by (simp add: wc_output_Cons cumulatives_simps del: walk_callees.simps)
  next
    case False
    obtain out q where p: "print_call_tree all_funcs c ss (level + 1) = (out, q)"
      by (cases "print_call_tree all_funcs c ss (level + 1)")
    from 3(4) False p obtain v where q: "q = Inr (Some v)"
      and w: "snd (walk_callees all_funcs funcname ss level cs (max v max_ss)) = Inr r"
      by (auto simp: wc_result_Cons simp del: walk_callees.simps split: sum.splits option.splits)
    from 3(2) [OF False, of v] p q have v: "v = Max (set (cumulatives out))" by simp
    have "cumulatives (fst (print_call_tree all_funcs c ss (level + 1))) \<noteq> []"
      by (rule cumulatives_nonempty)
    then have ne: "cumulatives out \<noteq> []"
      by (simp add: p)
    from 3(3) [OF False p [symmetric] q refl w]
    have "r = Max (insert (max v max_ss)
                 (set (cumulatives (fst (walk_callees all_funcs funcname ss level cs (max v max_ss))))))" .
    also have "\<dots> = Max (insert max_ss (set (cumulatives out) \<union>
                 set (cumulatives (fst (walk_callees all_funcs funcname ss level cs (max v max_ss))))))"
      unfolding v by (rule Max_step) (simp_all add: ne)
    finally show ?thesis using False p q
      by (simp add: wc_output_Cons cumulatives_simps del: walk_callees.simps)
  qed
qed

text \<open>The example of the specification: A (10) calls B (5) calls C (3).\<close>

lemma abc_example:
  "print_call_tree abc_index ''A'' 0 0 =
     ([Node 10 10 0 ''A'', Node 15 5 1 ''B'', Node 18 3 2 ''C''], Inr (Some 18))
   \<and> main abc_index ''A'' =
     ([], [Node 10 10 0 ''A'', Node 15 5 1 ''B'', Node 18 3 2 ''C'', Deepest 18], None)"
  by code_simp

text \<open>
  Claim C1, at an input where it fails. The lemma \<open>walk_returns_max\<close> above shows the
  claim for every walk that returns a value: the value is the maximum of the cumulative
  sizes printed. But the walker does not return a value for every index. In the chain
  of 22 functions the walk from \<open>a\<close> reaches \<open>v\<close> at level 21 and prints its line,
  with the cumulative size 22; there the bare \<^verbatim>\<open>return\<close> gives \<^verbatim>\<open>None\<close>, and
  \<^verbatim>\<open>max(this_ss, max_ss)\<close> in the caller raises \<^verbatim>\<open>TypeError\<close>. No summary line is
  printed.
\<close>

theorem chain_walk_returns_no_maximum:
  "(case analyse chain_listing ''a'' of
      Inl e \<Rightarrow> False
    | Inr (err, out, exc) \<Rightarrow>
        exc = Some TypeError \<and> Node 22 1 21 ''v'' \<in> set out \<and> last out = TooDeep 21)"
  by code_simp

section \<open>The depth cap\<close>

text \<open>
  Claim C2, at an input where it fails. In the listing with the cycle of \<open>A\<close> and
  \<open>B\<close> the walk from \<open>A\<close> goes down to level 21, prints the marker there and does
  not visit the callees of that node; but the walk as a whole does not complete: the
  \<^verbatim>\<open>None\<close> returned under the cap makes \<^verbatim>\<open>max(this_ss, max_ss)\<close> raise
  \<^verbatim>\<open>TypeError\<close> one level up, and the exception ends the program before the summary
  line.
\<close>

theorem cycle_walk_raises:
  "(case analyse cycle_listing ''A'' of
      Inl e \<Rightarrow> False
    | Inr (err, out, exc) \<Rightarrow>
        exc = Some TypeError \<and> Node 22 1 21 ''B'' \<in> set out \<and> last out = TooDeep 21)"
  by code_simp

section \<open>Direct self-recursion\<close>

lemma walk_no_self:
  "print_call_tree (no_self a) n s l =
     (filter (\<lambda>x. \<not> is_marker x) (fst (print_call_tree a n s l)), snd (print_call_tree a n s l))"
  "walk_callees (no_self a) n s l (filter (\<lambda>c. c \<noteq> n) cs) m =
     (filter (\<lambda>x. \<not> is_marker x) (fst (walk_callees a n s l cs m)), snd (walk_callees a n s l cs m))"
proof (induction a n s l and a n s l cs m rule: print_call_tree_walk_callees.induct)
  case (1 all_funcs funcname ss level)
  show ?case
  proof (cases "all_funcs funcname")
    case None
    then have "no_self all_funcs funcname = None" by (simp add: no_self_def)
    with None show ?thesis
      by (intro prod_eqI) (simp_all add: pct_output pct_result)
  next
    case (Some f)
    then have ns: "no_self all_funcs funcname =
        Some (f\<lparr>callees := filter (\<lambda>c. c \<noteq> funcname) (callees f)\<rparr>)"
      by (simp add: no_self_def)
    show ?thesis
    proof (cases "level > 20")
      case True
      with Some ns show ?thesis
        by (intro prod_eqI) (simp_all add: pct_output pct_result)
    next
      case False
      from 1 [OF refl refl refl refl False Some] Some ns False
      show ?thesis
        by (intro prod_eqI) (simp_all add: pct_output pct_result)
    qed
  qed
next
  case (2 all_funcs funcname ss level max_ss)
  then show ?case by simp
next
  case (3 all_funcs funcname ss level c cs max_ss)
  show ?case
  proof (cases "c = funcname")
    case True
    with 3(1) show ?thesis
      by (intro prod_eqI) (simp_all add: wc_output_Cons wc_result_Cons del: walk_callees.simps)
  next
    case False
    obtain out r where p: "print_call_tree all_funcs c ss (level + 1) = (out, r)"
      by (cases "print_call_tree all_funcs c ss (level + 1)")
    with 3(2) [OF False] have q: "print_call_tree (no_self all_funcs) c ss (level + 1) =
        (filter (\<lambda>x. \<not> is_marker x) out, r)" by simp
    show ?thesis
    proof (cases "\<exists>v. r = Inr (Some v)")
      case True
      then obtain v where v: "r = Inr (Some v)" by blast
      from 3(3) [OF False p [symmetric] v refl] False p q v
      show ?thesis
        by (intro prod_eqI) (simp_all add: wc_output_Cons wc_result_Cons del: walk_callees.simps)
    next
      case no: False
      with False p q show ?thesis
        by (intro prod_eqI)
           (auto simp: wc_output_Cons wc_result_Cons simp del: walk_callees.simps
                 split: sum.splits option.splits)
    qed
  qed
qed

lemma marker_level:
  "Recursive k q \<in> set (fst (print_call_tree a n s l)) \<Longrightarrow> l \<le> k"
  "Recursive k q \<in> set (fst (walk_callees a n s l cs m)) \<Longrightarrow> l \<le> k"
proof (induction a n s l and a n s l cs m rule: print_call_tree_walk_callees.induct)
  case (1 all_funcs funcname ss level)
  show ?case
  proof (cases "all_funcs funcname")
    case None
    with 1(2) show ?thesis by (simp add: pct_output split: if_splits)
  next
    case (Some f)
    with 1(2) have lv: "\<not> level > 20"
      and w: "Recursive k q \<in> set (fst (walk_callees all_funcs funcname (ss + stacksize f) level
                 (callees f) (ss + stacksize f)))"
      by (auto simp: pct_output split: if_splits)
    from 1(1) [OF refl refl refl refl lv Some] Some w show ?thesis by simp
  qed
next
  case (2 all_funcs funcname ss level max_ss)
  then show ?case by simp
next
  case (3 all_funcs funcname ss level c cs max_ss)
  show ?case
  proof (cases "c = funcname")
    case True
    with 3(4) have "k = level \<or>
        Recursive k q \<in> set (fst (walk_callees all_funcs funcname ss level cs max_ss))"
      by (auto simp: wc_output_Cons simp del: walk_callees.simps)
    with 3(1) [OF True] show ?thesis by auto
  next
    case False
    obtain out r where p: "print_call_tree all_funcs c ss (level + 1) = (out, r)"
      by (cases "print_call_tree all_funcs c ss (level + 1)")
    show ?thesis
    proof (cases "Recursive k q \<in> set out")
      case True
      with 3(2) [OF False] p show ?thesis by simp
    next
      case no: False
      with 3(4) False p obtain v where v: "r = Inr (Some v)"
        and w: "Recursive k q \<in>
                  set (fst (walk_callees all_funcs funcname ss level cs (max v max_ss)))"
        by (auto simp: wc_output_Cons simp del: walk_callees.simps
                 split: sum.splits option.splits)
      from 3(3) [OF False p [symmetric] v refl w] show ?thesis .
    qed
  qed
qed

lemma wc_result_append:
  "snd (walk_callees a n s l (xs @ ys) m) =
     (case snd (walk_callees a n s l xs m) of
        Inl e \<Rightarrow> Inl e
      | Inr r \<Rightarrow> snd (walk_callees a n s l ys r))"
proof (induction xs arbitrary: m)
  case Nil
  then show ?case by simp
next
  case (Cons c xs)
  show ?case
    using Cons.IH
    by (auto simp: wc_result_Cons simp del: walk_callees.simps
             split: sum.splits option.splits)
qed

lemma wc_output_append:
  "fst (walk_callees a n s l (xs @ ys) m) =
     fst (walk_callees a n s l xs m) @
     (case snd (walk_callees a n s l xs m) of
        Inl e \<Rightarrow> []
      | Inr r \<Rightarrow> fst (walk_callees a n s l ys r))"
proof (induction xs arbitrary: m)
  case Nil
  then show ?case by simp
next
  case (Cons c xs)
  show ?case
    using Cons.IH
    by (auto simp: wc_output_Cons wc_result_Cons simp del: walk_callees.simps
             split: sum.splits option.splits)
qed

lemma no_own_marker:
  "n \<notin> set cs \<Longrightarrow> Recursive l n \<notin> set (fst (walk_callees a n s l cs m))"
proof (induction cs arbitrary: m)
  case Nil
  then show ?case by simp
next
  case (Cons c cs)
  then have c: "c \<noteq> n" and n: "n \<notin> set cs" by auto
  have "Recursive l n \<notin> set (fst (print_call_tree a c s (l + 1)))"
    using marker_level(1) [of l n a c s "l + 1"] by auto
  with Cons.IH [OF n] c show ?case
    by (auto simp: wc_output_Cons simp del: walk_callees.simps split: sum.splits option.splits)
qed

lemma takeWhile_first:
  "n \<notin> set ys \<Longrightarrow> takeWhile (\<lambda>c. c \<noteq> n) (ys @ n # zs) = ys"
  by (induction ys) auto

lemma marker_reached:
  assumes "n \<in> set cs"
  shows "(Recursive l n \<in> set (fst (walk_callees a n s l cs m))) =
         (\<exists>r. snd (walk_callees a n s l (takeWhile (\<lambda>c. c \<noteq> n) cs) m) = Inr r)"
proof -
  from split_list_first [OF assms] obtain ys zs where
    cs: "cs = ys @ n # zs" and ys: "n \<notin> set ys" by blast
  from ys have t: "takeWhile (\<lambda>c. c \<noteq> n) cs = ys"
    unfolding cs by (rule takeWhile_first)
  show ?thesis
  proof (cases "snd (walk_callees a n s l ys m)")
    case (Inl e)
    with no_own_marker [OF ys, of l a s m] show ?thesis
      unfolding t unfolding cs by (simp add: wc_output_append)
  next
    case (Inr r)
    then show ?thesis
      unfolding t unfolding cs
      by (simp add: wc_output_append wc_output_Cons del: walk_callees.simps)
  qed
qed

lemma marker_when_walk_returns:
  assumes "a n = Some f" "n \<in> set (callees f)" "l \<le> 20"
    "snd (print_call_tree a n s l) = Inr r"
  shows "Recursive l n \<in> set (fst (print_call_tree a n s l))"
proof -
  from assms(1,3,4) obtain m where
    "snd (walk_callees a n (s + stacksize f) l (callees f) (s + stacksize f)) = Inr m"
    by (auto simp: pct_result split: sum.splits)
  moreover have "callees f =
      takeWhile (\<lambda>c. c \<noteq> n) (callees f) @ dropWhile (\<lambda>c. c \<noteq> n) (callees f)"
    by simp
  ultimately obtain m' where
    "snd (walk_callees a n (s + stacksize f) l
       (takeWhile (\<lambda>c. c \<noteq> n) (callees f)) (s + stacksize f)) = Inr m'"
    using wc_result_append [of a n "s + stacksize f" l
        "takeWhile (\<lambda>c. c \<noteq> n) (callees f)" "dropWhile (\<lambda>c. c \<noteq> n) (callees f)"
        "s + stacksize f"]
    by (auto split: sum.splits)
  with marker_reached [OF assms(2), of l a "s + stacksize f" "s + stacksize f"] assms(1,3)
  show ?thesis by (auto simp: pct_output)
qed

text \<open>
  Claim C9 as stated, at two inputs where it fails. In the first listing the chain
  \<open>a\<close>, \<open>b\<close>, ..., \<open>u\<close> leads to \<open>v\<close>, which calls itself: the callee set of \<open>v\<close> is
  \<open>{v}\<close>. The walk from \<open>a\<close> visits \<open>v\<close> at level 21, where the depth cap comes
  before the loop over the callees: the node line of \<open>v\<close> and the line
  \<^verbatim>\<open>Nested too deeply\<close> are printed, and no \<^verbatim>\<open>Recursive call\<close> line is printed
  anywhere. In the second input \<open>f\<close> has the callees \<open>g\<close> and \<open>f\<close>, enumerated in this
  order, and \<open>g\<close> and \<open>h\<close> call each other: the walk of \<open>g\<close> raises before the loop
  of \<open>f\<close> comes to its self-call, and again no \<^verbatim>\<open>Recursive call\<close> line is printed.
\<close>

theorem self_call_marker_missing_counterexample:
  "(case process_lss deep_self_listing of
      Inl e \<Rightarrow> False
    | Inr all_funcs \<Rightarrow> map_option callees (all_funcs ''v'') = Some [''v''])
   \<and> (case analyse deep_self_listing ''a'' of
         Inl e \<Rightarrow> False
       | Inr (err, out, exc) \<Rightarrow>
           Node 22 1 21 ''v'' \<in> set out \<and> last out = TooDeep 21 \<and>
           filter is_marker out = [])
   \<and> map_option callees (cycle_before_self_index ''f'') = Some [''g'', ''f'']
   \<and> filter is_marker (fst (print_call_tree cycle_before_self_index ''f'' 0 0)) = []
   \<and> snd (print_call_tree cycle_before_self_index ''f'' 0 0) = Inl TypeError"
  by code_simp

text \<open>
  Claim C9 as amended. The walker is a total function: every walk ends. A self-call
  is never followed, and it adds nothing but its marker: the walk over an index
  prints the node lines, and returns the value or raises the exception, of the walk
  over the same index with every self-call taken out of the callee sets, so no node
  is visited because of a self-call and the function's stack size enters the
  cumulative totals once. The marker itself is printed exactly when the loop over the
  callees comes to the self-call: for a function \<open>n\<close> that has itself among its
  callees and is visited at level \<open>l\<close>, the marker for \<open>n\<close> at level \<open>l\<close> is in the
  output if and only if \<open>l\<close> is at most 20 (beyond the depth cap the callees are not
  looked at) and the loop over the callees enumerated before the self-call ends
  without an exception.
\<close>

theorem self_call_only_marked:
  "print_call_tree (no_self a) n s l =
     (filter (\<lambda>x. \<not> is_marker x) (fst (print_call_tree a n s l)),
      snd (print_call_tree a n s l))
   \<and> (a n = Some f \<and> n \<in> set (callees f) \<longrightarrow>
       (Recursive l n \<in> set (fst (print_call_tree a n s l))) =
       (l \<le> 20 \<and>
        (\<exists>r. snd (walk_callees a n (s + stacksize f) l
                    (takeWhile (\<lambda>c. c \<noteq> n) (callees f)) (s + stacksize f)) = Inr r)))"
proof (intro conjI impI)
  show "print_call_tree (no_self a) n s l =
     (filter (\<lambda>x. \<not> is_marker x) (fst (print_call_tree a n s l)),
      snd (print_call_tree a n s l))"
    by (rule walk_no_self)
next
  assume h: "a n = Some f \<and> n \<in> set (callees f)"
  then have n: "n \<in> set (callees f)" by simp
  from h marker_reached [OF n, of l a "s + stacksize f" "s + stacksize f"]
  show "(Recursive l n \<in> set (fst (print_call_tree a n s l))) =
       (l \<le> 20 \<and>
        (\<exists>r. snd (walk_callees a n (s + stacksize f) l
                    (takeWhile (\<lambda>c. c \<noteq> n) (callees f)) (s + stacksize f)) = Inr r))"
    by (auto simp: pct_output)
qed

theorem self_call_only_marked_witness:
  "print_call_tree late_self_index ''f'' 0 0 =
     ([Node 4 4 0 ''f'', Node 6 2 1 ''g'', Recursive 0 ''f''], Inr (Some 6))
   \<and> print_call_tree (no_self late_self_index) ''f'' 0 0 =
       ([Node 4 4 0 ''f'', Node 6 2 1 ''g''], Inr (Some 6))
   \<and> snd (walk_callees late_self_index ''f'' 4 0 [''g''] 4) = Inr 6
   \<and> Recursive 0 ''f'' \<in> set (fst (print_call_tree late_self_index ''f'' 0 0))
   \<and> snd (walk_callees cycle_before_self_index ''f'' 4 0 [''g''] 4) = Inl TypeError
   \<and> Recursive 0 ''f'' \<notin> set (fst (print_call_tree cycle_before_self_index ''f'' 0 0))"
proof -
  have v: "print_call_tree late_self_index ''f'' 0 0 =
     ([Node 4 4 0 ''f'', Node 6 2 1 ''g'', Recursive 0 ''f''], Inr (Some 6))"
    by code_simp
  have f: "late_self_index ''f'' = Some (fn ''f'' 4 [''g'', ''f''])"
    by (simp add: late_self_index_def)
  have f': "cycle_before_self_index ''f'' = Some (fn ''f'' 4 [''g'', ''f''])"
    by (simp add: cycle_before_self_index_def)
  have c: "''f'' \<in> set (callees (fn ''f'' 4 [''g'', ''f'']))"
    "stacksize (fn ''f'' 4 [''g'', ''f'']) = 4"
    "takeWhile (\<lambda>c. c \<noteq> ''f'') (callees (fn ''f'' 4 [''g'', ''f''])) = [''g'']"
    by (simp_all add: fn_def)
  have w: "snd (walk_callees late_self_index ''f'' 4 0 [''g''] 4) = Inr 6"
    by code_simp
  have w': "snd (walk_callees cycle_before_self_index ''f'' 4 0 [''g''] 4) = Inl TypeError"
    by code_simp
  have m: "Recursive 0 ''f'' \<in> set (fst (print_call_tree late_self_index ''f'' 0 0))"
    using self_call_only_marked [of late_self_index "''f''" 0 0 "fn ''f'' 4 [''g'', ''f'']"]
      f c w
    by simp
  have m': "Recursive 0 ''f'' \<notin> set (fst (print_call_tree cycle_before_self_index ''f'' 0 0))"
    using self_call_only_marked [of cycle_before_self_index "''f''" 0 0
        "fn ''f'' 4 [''g'', ''f'']"]
      f' c w'
    by simp
  have ns: "print_call_tree (no_self late_self_index) ''f'' 0 0 =
       ([Node 4 4 0 ''f'', Node 6 2 1 ''g''], Inr (Some 6))"
    using self_call_only_marked [of late_self_index "''f''" 0 0 "fn ''f'' 4 [''g'', ''f'']"] v
    by simp
  from v ns w m w' m' show ?thesis by simp
qed

section \<open>The order in which callees are enumerated\<close>

lemma Max_insert_max:
  "finite V \<Longrightarrow> Max (insert (max v m) V) = Max (insert m (insert v V))" for m :: int
  by (cases "V = {}") (auto simp: max.commute max.left_commute)

lemma finite_child_values:
  "finite {v. \<exists>c \<in> set cs. c \<noteq> n \<and> R c = Inr (Some v)}"
  for R :: "string \<Rightarrow> error + int option"
proof -
  have "{v. \<exists>c \<in> set cs. c \<noteq> n \<and> R c = Inr (Some v)}
          \<subseteq> (\<lambda>c. case R c of Inr (Some v) \<Rightarrow> v | _ \<Rightarrow> 0) ` set cs"
    by (auto simp: image_iff) (metis old.sum.simps(6) option.simps(5))
  then show ?thesis by (rule finite_subset) simp
qed

lemma wc_result_set:
  "snd (walk_callees a n s l cs m) =
     (if \<exists>c \<in> set cs. c \<noteq> n \<and> (\<forall>v. snd (print_call_tree a c s (l + 1)) \<noteq> Inr (Some v))
      then Inl TypeError
      else Inr (Max (insert m {v. \<exists>c \<in> set cs. c \<noteq> n \<and>
                                  snd (print_call_tree a c s (l + 1)) = Inr (Some v)})))"
proof (induction cs arbitrary: m)
  case Nil
  then show ?case by simp
next
  case (Cons c cs)
  let ?R = "\<lambda>c. snd (print_call_tree a c s (l + 1))"
  let ?V = "\<lambda>cs. {v. \<exists>c \<in> set cs. c \<noteq> n \<and> ?R c = Inr (Some v)}"
  show ?case
  proof (cases "c = n")
    case True
    then have "?V (c # cs) = ?V cs" by auto
    with True Cons.IH [of m] show ?thesis by (simp add: wc_result_Cons del: walk_callees.simps)
  next
    case False
    show ?thesis
    proof (cases "\<exists>v. ?R c = Inr (Some v)")
      case True
      then obtain v where v: "?R c = Inr (Some v)" by blast
      with False have V: "?V (c # cs) = insert v (?V cs)" by auto
      have "Max (insert (max v m) (?V cs)) = Max (insert m (?V (c # cs)))"
        unfolding V by (rule Max_insert_max) (rule finite_child_values)
      with False v Cons.IH [of "max v m"] show ?thesis
        by (simp add: wc_result_Cons del: walk_callees.simps)
    next
      case False
      with \<open>c \<noteq> n\<close> show ?thesis
        by (auto simp: wc_result_Cons simp del: walk_callees.simps split: sum.splits option.splits)
    qed
  qed
qed

lemma wc_result_cong:
  assumes "set cs - {n} = set cs' - {n}"
    and "\<And>c. snd (print_call_tree a c s (l + 1)) = snd (print_call_tree b c s (l + 1))"
  shows "snd (walk_callees a n s l cs m) = snd (walk_callees b n s l cs' m)"
proof -
  have "(\<exists>c \<in> set cs. c \<noteq> n \<and> P c) = (\<exists>c \<in> set cs'. c \<noteq> n \<and> P c)" for P
    using assms(1) by blast
  then show ?thesis
    unfolding wc_result_set assms(2) by simp
qed

text \<open>
  Claim C10. For two indexes that differ at most in the order in which the callee
  sets are enumerated, the walker returns the same: the same value, or \<^verbatim>\<open>None\<close>, or
  the same exception, from every start name, stack size and level (the lines are
  printed in another order).
\<close>

theorem result_independent_of_order:
  assumes "same_up_to_order a b"
  shows "snd (print_call_tree a n s l) = snd (print_call_tree b n s l)"
proof (induction "nat (21 - l)" arbitrary: n s l rule: less_induct)
  case less
  show ?case
  proof (cases "l > 20")
    case True
    then show ?thesis by (simp add: pct_result)
  next
    case False
    then have IH: "snd (print_call_tree a c s' (l + 1)) = snd (print_call_tree b c s' (l + 1))"
      for c s'
      by (intro less) simp
    from assms have "rel_option (\<lambda>f g. stacksize f = stacksize g \<and>
                        set (callees f) = set (callees g)) (a n) (b n)"
      by (simp add: same_up_to_order_def)
    then show ?thesis
    proof (cases rule: option.rel_cases)
      case None
      then show ?thesis by (simp add: pct_result)
    next
      case (Some f g)
      then have "set (callees f) - {n} = set (callees g) - {n}" by simp
      from wc_result_cong [of "callees f" n "callees g" a "s + stacksize g" l b
            "s + stacksize g", OF this IH] Some
      show ?thesis
        by (simp add: pct_result)
    qed
  qed
qed

theorem result_independent_of_order_witness:
  "same_up_to_order tree_bc tree_cb
   \<and> snd (print_call_tree tree_bc ''A'' 0 0) = snd (print_call_tree tree_cb ''A'' 0 0)
   \<and> snd (print_call_tree tree_bc ''A'' 0 0) = Inr (Some 22)
   \<and> fst (print_call_tree tree_bc ''A'' 0 0) \<noteq> fst (print_call_tree tree_cb ''A'' 0 0)"
proof -
  have h: "same_up_to_order tree_bc tree_cb"
    by (auto simp: same_up_to_order_def tree_bc_def tree_cb_def fn_def)
  have v: "snd (print_call_tree tree_bc ''A'' 0 0) = Inr (Some 22)"
    by code_simp
  have d: "fst (print_call_tree tree_bc ''A'' 0 0) \<noteq> fst (print_call_tree tree_cb ''A'' 0 0)"
    by code_simp
  show ?thesis
    using result_independent_of_order [OF h, of "''A''" 0 0] h v d by simp
qed

end
